theory Spec2Isabelle
  imports Main "HOL-Library.Word"
begin

unbundle bit_operations_syntax

section \<open>Machine types\<close>

text \<open>
  The generators of \<^verbatim>\<open>drbg.cpp\<close> work on \<^verbatim>\<open>uint8_t\<close>, \<^verbatim>\<open>uint16_t\<close>,
  \<^verbatim>\<open>uint32_t\<close> and \<^verbatim>\<open>uint64_t\<close> values; \<^verbatim>\<open>size_t\<close> is taken to be 64 bits wide.
  A \<^verbatim>\<open>std::vector<uint8_t>\<close> is a list of bytes, and so is a \<^verbatim>\<open>std::array\<close>, whose fixed
  length is then a property of the states that are reachable. Memory is unbounded here: no
  allocation fails. Every member function is a function of the object's members and its
  arguments, returning the new members; the tables are constants.
\<close>

type_synonym u8 = "8 word"
type_synonym u16 = "16 word"
type_synonym u32 = "32 word"
type_synonym u64 = "64 word"
type_synonym bytes = "u8 list"

text \<open>\<^verbatim>\<open>v.resize(n)\<close>: cut to \<open>n\<close> elements, or filled up with zero bytes.\<close>

definition resize :: "nat \<Rightarrow> bytes \<Rightarrow> bytes" where
  "resize n v = take n v @ replicate (n - length v) 0x00"

text \<open>
  The eight bytes of a 64-bit value, most significant first: the loop
  \<^verbatim>\<open>for (int i = 7; i >= 0; --i) ... (x >> (i * 8)) & 0xFF\<close> that \<^verbatim>\<open>sha256\<close> runs on the bit
  length and \<^verbatim>\<open>Hash_DRBG::generate\<close> on the reseed counter.
\<close>

definition be64 :: "u64 \<Rightarrow> bytes" where
  "be64 x = map (\<lambda>i. ucast (drop_bit (i * 8) x AND 0xFF)) (rev [0..<8])"

text \<open>
  The loop \<^verbatim>\<open>for (int i = n - 1; i >= 0; --i) { if (++c[i] != 0) break; }\<close> of
  \<^verbatim>\<open>increment_counter\<close> and of \<^verbatim>\<open>hashgen\<close>; the first argument is \<open>i + 1\<close>.
\<close>

fun increment_from :: "nat \<Rightarrow> bytes \<Rightarrow> bytes" where
  "increment_from 0 c = c"
| "increment_from (Suc i) c =
     (let c' = c[i := c ! i + 1]
      in if c' ! i \<noteq> 0 then c' else increment_from i c')"

section \<open>SHA-256\<close>

definition SHA256_K :: "u32 list" where
  "SHA256_K = [
    0x428A2F98, 0x71374491, 0xB5C0FBCF, 0xE9B5DBA5,
    0x3956C25B, 0x59F111F1, 0x923F82A4, 0xAB1C5ED5,
    0xD807AA98, 0x12835B01, 0x243185BE, 0x550C7DC3,
    0x72BE5D74, 0x80DEB1FE, 0x9BDC06A7, 0xC19BF174,
    0xE49B69C1, 0xEFBE4786, 0x0FC19DC6, 0x240CA1CC,
    0x2DE92C6F, 0x4A7484AA, 0x5CB0A9DC, 0x76F988DA,
    0x983E5152, 0xA831C66D, 0xB00327C8, 0xBF597FC7,
    0xC6E00BF3, 0xD5A79147, 0x06CA6351, 0x14292967,
    0x27B70A85, 0x2E1B2138, 0x4D2C6DFC, 0x53380D13,
    0x650A7354, 0x766A0ABB, 0x81C2C92E, 0x92722C85,
    0xA2BFE8A1, 0xA81A664B, 0xC24B8B70, 0xC76C51A3,
    0xD192E819, 0xD6990624, 0xF40E3585, 0x106AA070,
    0x19A4C116, 0x1E376C08, 0x2748774C, 0x34B0BCB5,
    0x391C0CB3, 0x4ED8AA4A, 0x5B9CCA4F, 0x682E6FF3,
    0x748F82EE, 0x78A5636F, 0x84C87814, 0x8CC70208,
    0x90BEFFFA, 0xA4506CEB, 0xBEF9A3F7, 0xC67178F2]"

definition rotr :: "u32 \<Rightarrow> nat \<Rightarrow> u32" where
  "rotr x n = drop_bit n x OR push_bit (32 - n) x"

definition ch :: "u32 \<Rightarrow> u32 \<Rightarrow> u32 \<Rightarrow> u32" where
  "ch x y z = (x AND y) XOR (NOT x AND z)"

definition maj :: "u32 \<Rightarrow> u32 \<Rightarrow> u32 \<Rightarrow> u32" where
  "maj x y z = (x AND y) XOR (x AND z) XOR (y AND z)"

definition sigma0 :: "u32 \<Rightarrow> u32" where
  "sigma0 x = rotr x 2 XOR rotr x 13 XOR rotr x 22"

definition sigma1 :: "u32 \<Rightarrow> u32" where
  "sigma1 x = rotr x 6 XOR rotr x 11 XOR rotr x 25"

definition gamma0 :: "u32 \<Rightarrow> u32" where
  "gamma0 x = rotr x 7 XOR rotr x 18 XOR drop_bit 3 x"

definition gamma1 :: "u32 \<Rightarrow> u32" where
  "gamma1 x = rotr x 17 XOR rotr x 19 XOR drop_bit 10 x"

text \<open>\<^verbatim>\<open>while ((padded.size() % 64) != 56) padded.push_back(0x00);\<close>\<close>

function pad_zeros :: "bytes \<Rightarrow> bytes" where
  "pad_zeros padded =
     (if length padded mod 64 \<noteq> 56 then pad_zeros (padded @ [0x00]) else padded)"
  by pat_completeness auto
termination
proof (relation "measure (\<lambda>p. let m = length p mod 64 in if m \<le> 56 then 56 - m else 120 - m)")
  show "wf (measure (\<lambda>p. let m = length p mod 64 in if m \<le> 56 then 56 - m else 120 - m))"
    by simp
next
  fix padded :: bytes
  assume ne: "length padded mod 64 \<noteq> 56"
  have lt: "length padded mod 64 < 64"
    by simp
  show "(padded @ [0x00], padded)
      \<in> measure (\<lambda>p. let m = length p mod 64 in if m \<le> 56 then 56 - m else 120 - m)"
    using ne lt by (simp add: mod_Suc Let_def) linarith
qed

declare pad_zeros.simps [simp del]

definition sha256_pad :: "bytes \<Rightarrow> bytes" where
  "sha256_pad data_in =
     (let original_len = length data_in;
          original_bit_len = (of_nat original_len :: u64) * 8;
          padded = pad_zeros (data_in @ [0x80])
      in padded @ be64 original_bit_len)"

definition load_word :: "bytes \<Rightarrow> nat \<Rightarrow> nat \<Rightarrow> u32" where
  "load_word padded chunk i =
     push_bit 24 (ucast (padded ! (chunk + i * 4))) OR
     push_bit 16 (ucast (padded ! (chunk + i * 4 + 1))) OR
     push_bit 8 (ucast (padded ! (chunk + i * 4 + 2))) OR
     ucast (padded ! (chunk + i * 4 + 3))"

definition extend_step :: "nat \<Rightarrow> u32 list \<Rightarrow> u32 list" where
  "extend_step i w =
     w @ [gamma1 (w ! (i - 2)) + w ! (i - 7) + gamma0 (w ! (i - 15)) + w ! (i - 16)]"

definition schedule :: "bytes \<Rightarrow> nat \<Rightarrow> u32 list" where
  "schedule padded chunk =
     fold extend_step [16..<64] (map (load_word padded chunk) [0..<16])"

type_synonym working = "u32 \<times> u32 \<times> u32 \<times> u32 \<times> u32 \<times> u32 \<times> u32 \<times> u32"

fun compress_step :: "u32 list \<Rightarrow> nat \<Rightarrow> working \<Rightarrow> working" where
  "compress_step w i (a, b, c, d, e, f, g, hh) =
     (let t1 = hh + sigma1 e + ch e f g + SHA256_K ! i + w ! i;
          t2 = sigma0 a + maj a b c
      in (t1 + t2, a, b, c, d + t1, e, f, g))"

definition process_chunk :: "bytes \<Rightarrow> nat \<Rightarrow> u32 list \<Rightarrow> u32 list" where
  "process_chunk padded chunk h =
     (let w = schedule padded chunk;
          (a, b, c, d, e, f, g, hh) =
             fold (compress_step w) [0..<64]
               (h ! 0, h ! 1, h ! 2, h ! 3, h ! 4, h ! 5, h ! 6, h ! 7)
      in map2 (+) h [a, b, c, d, e, f, g, hh])"

function process_chunks :: "bytes \<Rightarrow> nat \<Rightarrow> u32 list \<Rightarrow> u32 list" where
  "process_chunks padded chunk h =
     (if chunk < length padded
      then process_chunks padded (chunk + 64) (process_chunk padded chunk h)
      else h)"
  by pat_completeness auto
termination
  by (relation "measure (\<lambda>(padded, chunk, h). length padded - chunk)") auto

declare process_chunks.simps [simp del]

definition sha256_init :: "u32 list" where
  "sha256_init = [0x6A09E667, 0xBB67AE85, 0x3C6EF372, 0xA54FF53A,
                  0x510E527F, 0x9B05688C, 0x1F83D9AB, 0x5BE0CD19]"

definition store_word :: "u32 \<Rightarrow> bytes" where
  "store_word x = [ucast (drop_bit 24 x AND 0xFF), ucast (drop_bit 16 x AND 0xFF),
                   ucast (drop_bit 8 x AND 0xFF), ucast (x AND 0xFF)]"

definition sha256 :: "bytes \<Rightarrow> bytes" where
  "sha256 data_in =
     (let padded = sha256_pad data_in;
          h = process_chunks padded 0 sha256_init
      in concat (map (\<lambda>i. store_word (h ! i)) [0..<8]))"

section \<open>CTR-DRBG\<close>

definition BLOCK_SIZE :: nat where
  "BLOCK_SIZE = 16"

definition KEY_SIZE :: nat where
  "KEY_SIZE = 32"

definition SBOX :: "u8 list" where
  "SBOX = [
    0x63, 0x7c, 0x77, 0x7b, 0xf2, 0x6b, 0x6f, 0xc5, 0x30, 0x01, 0x67, 0x2b, 0xfe, 0xd7, 0xab, 0x76,
    0xca, 0x82, 0xc9, 0x7d, 0xfa, 0x59, 0x47, 0xf0, 0xad, 0xd4, 0xa2, 0xaf, 0x9c, 0xa4, 0x72, 0xc0,
    0xb7, 0xfd, 0x93, 0x26, 0x36, 0x3f, 0xf7, 0xcc, 0x34, 0xa5, 0xe5, 0xf1, 0x71, 0xd8, 0x31, 0x15,
    0x04, 0xc7, 0x23, 0xc3, 0x18, 0x96, 0x05, 0x9a, 0x07, 0x12, 0x80, 0xe2, 0xeb, 0x27, 0xb2, 0x75,
    0x09, 0x83, 0x2c, 0x1a, 0x1b, 0x6e, 0x5a, 0xa0, 0x52, 0x3b, 0xd6, 0xb3, 0x29, 0xe3, 0x2f, 0x84,
    0x53, 0xd1, 0x00, 0xed, 0x20, 0xfc, 0xb1, 0x5b, 0x6a, 0xcb, 0xbe, 0x39, 0x4a, 0x4c, 0x58, 0xcf,
    0xd0, 0xef, 0xaa, 0xfb, 0x43, 0x4d, 0x33, 0x85, 0x45, 0xf9, 0x02, 0x7f, 0x50, 0x3c, 0x9f, 0xa8,
    0x51, 0xa3, 0x40, 0x8f, 0x92, 0x9d, 0x38, 0xf5, 0xbc, 0xb6, 0xda, 0x21, 0x10, 0xff, 0xf3, 0xd2,
    0xcd, 0x0c, 0x13, 0xec, 0x5f, 0x97, 0x44, 0x17, 0xc4, 0xa7, 0x7e, 0x3d, 0x64, 0x5d, 0x19, 0x73,
    0x60, 0x81, 0x4f, 0xdc, 0x22, 0x2a, 0x90, 0x88, 0x46, 0xee, 0xb8, 0x14, 0xde, 0x5e, 0x0b, 0xdb,
    0xe0, 0x32, 0x3a, 0x0a, 0x49, 0x06, 0x24, 0x5c, 0xc2, 0xd3, 0xac, 0x62, 0x91, 0x95, 0xe4, 0x79,
    0xe7, 0xc8, 0x37, 0x6d, 0x8d, 0xd5, 0x4e, 0xa9, 0x6c, 0x56, 0xf4, 0xea, 0x65, 0x7a, 0xae, 0x08,
    0xba, 0x78, 0x25, 0x2e, 0x1c, 0xa6, 0xb4, 0xc6, 0xe8, 0xdd, 0x74, 0x1f, 0x4b, 0xbd, 0x8b, 0x8a,
    0x70, 0x3e, 0xb5, 0x66, 0x48, 0x03, 0xf6, 0x0e, 0x61, 0x35, 0x57, 0xb9, 0x86, 0xc1, 0x1d, 0x9e,
    0xe1, 0xf8, 0x98, 0x11, 0x69, 0xd9, 0x8e, 0x94, 0x9b, 0x1e, 0x87, 0xe9, 0xce, 0x55, 0x28, 0xdf,
    0x8c, 0xa1, 0x89, 0x0d, 0xbf, 0xe6, 0x42, 0x68, 0x41, 0x99, 0x2d, 0x0f, 0xb0, 0x54, 0xbb, 0x16]"

record ctr_state =
  ctr_key :: bytes
  ctr_counter :: bytes
  ctr_reseed_counter :: u64

text \<open>\<^verbatim>\<open>state[i] ^= key[(round * BLOCK_SIZE + i) % KEY_SIZE]\<close> for every \<open>i\<close>.\<close>

definition add_round_key :: "bytes \<Rightarrow> nat \<Rightarrow> bytes \<Rightarrow> bytes" where
  "add_round_key key round state =
     fold (\<lambda>i st. st[i := st ! i XOR key ! ((round * BLOCK_SIZE + i) mod KEY_SIZE)])
       [0..<BLOCK_SIZE] state"

text \<open>\<^verbatim>\<open>state[i] = SBOX[state[i]]\<close> for every \<open>i\<close>.\<close>

definition sub_bytes :: "bytes \<Rightarrow> bytes" where
  "sub_bytes state = fold (\<lambda>i st. st[i := SBOX ! unat (st ! i)]) [0..<BLOCK_SIZE] state"

text \<open>The new array is filled from the copy \<^verbatim>\<open>temp\<close> of the old one.\<close>

definition shift_rows :: "bytes \<Rightarrow> bytes" where
  "shift_rows state =
     (let temp = state
      in map (\<lambda>i. temp ! ((i + i div 4) mod BLOCK_SIZE)) [0..<BLOCK_SIZE])"

text \<open>
  \<^verbatim>\<open>state[j] ^= t ^ ((state[j] ^ x) << 1)\<close>: the operands are promoted to \<^verbatim>\<open>int\<close>
  (32 bits), so the shift loses nothing, and the assignment keeps the low eight bits.
\<close>

definition mix_byte :: "u8 \<Rightarrow> u8 \<Rightarrow> u8 \<Rightarrow> u8" where
  "mix_byte b t x =
     ucast ((ucast b :: u32) XOR ((ucast t :: u32) XOR push_bit 1 ((ucast b :: u32) XOR ucast x)))"

text \<open>The body of the column loop, on the column that starts at index \<open>i\<close>.\<close>

definition mix_column :: "nat \<Rightarrow> bytes \<Rightarrow> bytes" where
  "mix_column i state =
     (let t = state ! i XOR state ! (i + 1) XOR state ! (i + 2) XOR state ! (i + 3);
          u = state ! i;
          s1 = state[i := mix_byte (state ! i) t (state ! (i + 1))];
          s2 = s1[i + 1 := mix_byte (s1 ! (i + 1)) t (s1 ! (i + 2))];
          s3 = s2[i + 2 := mix_byte (s2 ! (i + 2)) t (s2 ! (i + 3))];
          s4 = s3[i + 3 := mix_byte (s3 ! (i + 3)) t u]
      in s4)"

text \<open>\<^verbatim>\<open>for (size_t i = 0; i < BLOCK_SIZE; i += 4)\<close>\<close>

definition mix_columns :: "bytes \<Rightarrow> bytes" where
  "mix_columns state = fold mix_column [0, 4, 8, 12] state"

definition cipher_round :: "bytes \<Rightarrow> nat \<Rightarrow> bytes \<Rightarrow> bytes" where
  "cipher_round key round state =
     (let s1 = add_round_key key round state;
          s2 = sub_bytes s1;
          s3 = shift_rows s2
      in if round < 9 then mix_columns s3 else s3)"

definition encrypt_block :: "bytes \<Rightarrow> bytes \<Rightarrow> bytes" where
  "encrypt_block key block = fold (cipher_round key) [0..<10] block"

definition increment_counter :: "bytes \<Rightarrow> bytes" where
  "increment_counter counter = increment_from BLOCK_SIZE counter"

lemma length_mix_column: "length (mix_column i st) = length st"
  by (simp add: mix_column_def Let_def)

lemma length_encrypt_block: "length (encrypt_block key block) = 16"
  by (simp add: encrypt_block_def cipher_round_def shift_rows_def mix_columns_def
      length_mix_column BLOCK_SIZE_def Let_def upt_rec [of _ 10])

text \<open>
  The loop of \<^verbatim>\<open>update\<close>: \<^verbatim>\<open>while (temp.size() < KEY_SIZE + BLOCK_SIZE)\<close>, which
  increments the counter, encrypts it and appends the block. It returns the counter too.
\<close>

function update_fill :: "bytes \<Rightarrow> bytes \<Rightarrow> bytes \<Rightarrow> bytes \<times> bytes" where
  "update_fill key counter temp =
     (if length temp < KEY_SIZE + BLOCK_SIZE
      then (let counter' = increment_counter counter;
                block = encrypt_block key counter'
            in update_fill key counter' (temp @ block))
      else (counter, temp))"
  by pat_completeness auto
termination
  by (relation "measure (\<lambda>(key, counter, temp). KEY_SIZE + BLOCK_SIZE - length temp)")
    (auto simp: length_encrypt_block)

declare update_fill.simps [simp del]

text \<open>\<^verbatim>\<open>temp[i] ^= provided_data[i]\<close> for \<open>i\<close> below the shorter of the two lengths.\<close>

definition xor_provided :: "bytes \<Rightarrow> bytes \<Rightarrow> bytes" where
  "xor_provided temp provided_data =
     fold (\<lambda>i t. t[i := t ! i XOR provided_data ! i])
       [0..<min (length temp) (length provided_data)] temp"

definition CTR_update :: "ctr_state \<Rightarrow> bytes \<Rightarrow> ctr_state" where
  "CTR_update s provided_data =
     (let (counter', temp) = update_fill (ctr_key s) (ctr_counter s) [];
          temp' = xor_provided temp provided_data
      in s\<lparr>ctr_key := take KEY_SIZE temp',
           ctr_counter := take BLOCK_SIZE (drop KEY_SIZE temp')\<rparr>)"

definition CTR_construct :: "bytes \<Rightarrow> ctr_state" where
  "CTR_construct seed =
     CTR_update \<lparr>ctr_key = replicate KEY_SIZE 0, ctr_counter = replicate BLOCK_SIZE 0,
                 ctr_reseed_counter = 1\<rparr> seed"

text \<open>The loop of \<^verbatim>\<open>generate\<close>: \<^verbatim>\<open>while (result.size() < num_bytes)\<close>.\<close>

function generate_fill :: "bytes \<Rightarrow> bytes \<Rightarrow> nat \<Rightarrow> bytes \<Rightarrow> bytes \<times> bytes" where
  "generate_fill key counter num_bytes result =
     (if length result < num_bytes
      then (let counter' = increment_counter counter;
                block = encrypt_block key counter'
            in generate_fill key counter' num_bytes (result @ block))
      else (counter, result))"
  by pat_completeness auto
termination
  by (relation "measure (\<lambda>(key, counter, num_bytes, result). num_bytes - length result)")
    (auto simp: length_encrypt_block)

declare generate_fill.simps [simp del]

definition CTR_generate :: "ctr_state \<Rightarrow> u64 \<Rightarrow> bytes \<times> ctr_state" where
  "CTR_generate s num_bits =
     (let num_bytes = unat ((num_bits + 7) div 8);
          (counter', result) = generate_fill (ctr_key s) (ctr_counter s) num_bytes [];
          result' = resize num_bytes result;
          s' = CTR_update (s\<lparr>ctr_counter := counter'\<rparr>) []
      in (result', s'\<lparr>ctr_reseed_counter := ctr_reseed_counter s' + 1\<rparr>))"

definition CTR_reseed :: "ctr_state \<Rightarrow> bytes \<Rightarrow> ctr_state" where
  "CTR_reseed s seed = (CTR_update s seed)\<lparr>ctr_reseed_counter := 1\<rparr>"

definition CTR_getStateSize :: "ctr_state \<Rightarrow> nat" where
  "CTR_getStateSize s = KEY_SIZE + BLOCK_SIZE + 8"

section \<open>Hash-DRBG\<close>

definition SEED_LENGTH :: nat where
  "SEED_LENGTH = 55"

definition HASH_OUTPUT :: nat where
  "HASH_OUTPUT = 32"

record hash_state =
  hash_V :: bytes
  hash_C :: bytes
  hash_reseed_counter :: u64

text \<open>
  The loop of \<^verbatim>\<open>hash_df\<close>, \<^verbatim>\<open>for (size_t i = 0; i < len; ++i)\<close>; the first argument is
  the number of rounds still to run, \<open>counter\<close> is the \<^verbatim>\<open>uint8_t\<close> that each round increments.
\<close>

fun hash_df_loop :: "nat \<Rightarrow> u8 \<Rightarrow> u64 \<Rightarrow> bytes \<Rightarrow> bytes \<Rightarrow> bytes" where
  "hash_df_loop 0 counter no_of_bits input temp = temp"
| "hash_df_loop (Suc n) counter no_of_bits input temp =
     (let hash_input =
            [counter,
             ucast (drop_bit 24 no_of_bits AND 0xFF),
             ucast (drop_bit 16 no_of_bits AND 0xFF),
             ucast (drop_bit 8 no_of_bits AND 0xFF),
             ucast (no_of_bits AND 0xFF)] @ input;
          hash = sha256 hash_input
      in hash_df_loop n (counter + 1) no_of_bits input (temp @ hash))"

definition hash_df :: "bytes \<Rightarrow> u64 \<Rightarrow> bytes" where
  "hash_df input no_of_bits =
     (let no_of_bytes = unat ((no_of_bits + 7) div 8);
          len = (no_of_bytes + HASH_OUTPUT - 1) div HASH_OUTPUT
      in resize no_of_bytes (hash_df_loop len 1 no_of_bits input []))"

text \<open>
  The loop of \<^verbatim>\<open>add_to_V\<close>, from \<open>i\<close> on, with the \<^verbatim>\<open>uint16_t\<close> carry; \<^verbatim>\<open>val_idx\<close> is read
  only where \<open>i < min_len\<close>, so the wrap-around of \<^verbatim>\<open>value.size() - 1 - i\<close> is never seen.
\<close>

function add_to_V_loop :: "nat \<Rightarrow> nat \<Rightarrow> bytes \<Rightarrow> bytes \<Rightarrow> u16 \<Rightarrow> bytes" where
  "add_to_V_loop i min_len val V carry =
     (if i < length V
      then (let idx = length V - 1 - i;
                val_idx = length val - 1 - i;
                sum0 = (ucast (V ! idx) :: u16) + carry;
                sum = (if i < min_len then sum0 + ucast (val ! val_idx) else sum0)
            in add_to_V_loop (i + 1) min_len val (V[idx := ucast (sum AND 0xFF)])
                 (drop_bit 8 sum))
      else V)"
  by pat_completeness auto
termination
  by (relation "measure (\<lambda>(i, min_len, val, V, carry). length V - i)") auto

declare add_to_V_loop.simps [simp del]

definition add_to_V :: "bytes \<Rightarrow> bytes \<Rightarrow> bytes" where
  "add_to_V V val = add_to_V_loop 0 (min (length V) (length val)) val V 0"

text \<open>The loop of \<^verbatim>\<open>hashgen\<close>; the first argument is the number of rounds still to run.\<close>

fun hashgen_loop :: "nat \<Rightarrow> bytes \<Rightarrow> bytes \<Rightarrow> bytes" where
  "hashgen_loop 0 data W = W"
| "hashgen_loop (Suc n) data W =
     (let w = sha256 data
      in hashgen_loop n (increment_from (length data) data) (W @ w))"

definition hashgen :: "bytes \<Rightarrow> u64 \<Rightarrow> bytes" where
  "hashgen V requested_bits =
     (let m = unat ((requested_bits + (of_nat HASH_OUTPUT * 8) - 1) div (of_nat HASH_OUTPUT * 8))
      in resize (unat ((requested_bits + 7) div 8)) (hashgen_loop m V []))"

definition Hash_construct :: "bytes \<Rightarrow> hash_state" where
  "Hash_construct seed =
     (let V = hash_df seed (of_nat SEED_LENGTH * 8);
          c_input = 0x00 # V;
          C = hash_df c_input (of_nat SEED_LENGTH * 8)
      in \<lparr>hash_V = V, hash_C = C, hash_reseed_counter = 1\<rparr>)"

definition Hash_generate :: "hash_state \<Rightarrow> u64 \<Rightarrow> bytes \<times> hash_state" where
  "Hash_generate s num_bits =
     (let returned_bits = hashgen (hash_V s) num_bits;
          H_input = 0x03 # hash_V s;
          H = sha256 H_input;
          V1 = add_to_V (hash_V s) H;
          V2 = add_to_V V1 (hash_C s);
          rc_bytes = be64 (hash_reseed_counter s);
          V3 = add_to_V V2 rc_bytes
      in (returned_bits,
          s\<lparr>hash_V := V3, hash_reseed_counter := hash_reseed_counter s + 1\<rparr>))"

definition Hash_reseed :: "hash_state \<Rightarrow> bytes \<Rightarrow> hash_state" where
  "Hash_reseed s seed =
     (let seed_material = 0x01 # hash_V s @ seed;
          V = hash_df seed_material (of_nat SEED_LENGTH * 8);
          c_input = 0x00 # V;
          C = hash_df c_input (of_nat SEED_LENGTH * 8)
      in \<lparr>hash_V = V, hash_C = C, hash_reseed_counter = 1\<rparr>)"

definition Hash_getStateSize :: "hash_state \<Rightarrow> nat" where
  "Hash_getStateSize s = length (hash_V s) + length (hash_C s) + 8"

section \<open>HMAC-DRBG\<close>

record hmac_state =
  hmac_K :: bytes
  hmac_V :: bytes
  hmac_reseed_counter :: u64

text \<open>
  \<^verbatim>\<open>k_pad\<close> is a zeroed array of 64 bytes into which the 32 bytes of the key are copied;
  the two pads are filled index by index.
\<close>

definition hmac_sha256 :: "bytes \<Rightarrow> bytes \<Rightarrow> bytes" where
  "hmac_sha256 key data_in =
     (let k_pad = fold (\<lambda>i kp. kp[i := key ! i]) [0..<32] (replicate 64 0x00);
          i_key_pad = map (\<lambda>i. k_pad ! i XOR 0x36) [0..<64];
          o_key_pad = map (\<lambda>i. k_pad ! i XOR 0x5c) [0..<64];
          inner_data = i_key_pad @ data_in;
          inner_hash = sha256 inner_data;
          outer_data = o_key_pad @ inner_hash
      in sha256 outer_data)"

definition HMAC_update :: "hmac_state \<Rightarrow> bytes \<Rightarrow> hmac_state" where
  "HMAC_update s provided_data =
     (let temp = hmac_V s @ [0x00] @ provided_data;
          K1 = hmac_sha256 (hmac_K s) temp;
          V1 = hmac_sha256 K1 (hmac_V s)
      in if provided_data \<noteq> []
         then (let temp' = V1 @ [0x01] @ provided_data;
                   K2 = hmac_sha256 K1 temp';
                   V2 = hmac_sha256 K2 V1
               in s\<lparr>hmac_K := K2, hmac_V := V2\<rparr>)
         else s\<lparr>hmac_K := K1, hmac_V := V1\<rparr>)"

definition HMAC_construct :: "bytes \<Rightarrow> hmac_state" where
  "HMAC_construct seed =
     HMAC_update \<lparr>hmac_K = replicate 32 0x00, hmac_V = replicate 32 0x01,
                  hmac_reseed_counter = 1\<rparr> seed"

lemma length_sha256: "length (sha256 d) = 32"
  by (simp add: sha256_def store_word_def length_concat comp_def Let_def sum_list_triv)

lemma length_hmac_sha256: "length (hmac_sha256 k d) = 32"
  by (simp add: hmac_sha256_def Let_def length_sha256)

text \<open>The loop of \<^verbatim>\<open>generate\<close>: \<^verbatim>\<open>while (result.size() < num_bytes)\<close>, on \<open>V\<close> and the result.\<close>

function hmac_fill :: "bytes \<Rightarrow> bytes \<Rightarrow> nat \<Rightarrow> bytes \<Rightarrow> bytes \<times> bytes" where
  "hmac_fill K V num_bytes result =
     (if length result < num_bytes
      then (let V' = hmac_sha256 K V
            in hmac_fill K V' num_bytes (result @ V'))
      else (V, result))"
  by pat_completeness auto
termination
  by (relation "measure (\<lambda>(K, V, num_bytes, result). num_bytes - length result)")
    (auto simp: length_hmac_sha256)

declare hmac_fill.simps [simp del]

definition HMAC_generate :: "hmac_state \<Rightarrow> u64 \<Rightarrow> bytes \<times> hmac_state" where
  "HMAC_generate s num_bits =
     (let num_bytes = unat ((num_bits + 7) div 8);
          (V', result) = hmac_fill (hmac_K s) (hmac_V s) num_bytes [];
          result' = resize num_bytes result;
          s' = HMAC_update (s\<lparr>hmac_V := V'\<rparr>) []
      in (result', s'\<lparr>hmac_reseed_counter := hmac_reseed_counter s' + 1\<rparr>))"

definition HMAC_reseed :: "hmac_state \<Rightarrow> bytes \<Rightarrow> hmac_state" where
  "HMAC_reseed s seed = (HMAC_update s seed)\<lparr>hmac_reseed_counter := 1\<rparr>"

definition HMAC_getStateSize :: "hmac_state \<Rightarrow> nat" where
  "HMAC_getStateSize s = 32 + 32 + 8"

section \<open>The generator interface\<close>

text \<open>
  The abstract class \<^verbatim>\<open>DRBG\<close> has the three implementations; a generator is one of their
  states, and the virtual calls dispatch on it.
\<close>

datatype variant = CTR_DRBG | Hash_DRBG | HMAC_DRBG

datatype drbg = CTR ctr_state | HASH hash_state | HMAC hmac_state

fun construct :: "variant \<Rightarrow> bytes \<Rightarrow> drbg" where
  "construct CTR_DRBG seed = CTR (CTR_construct seed)"
| "construct Hash_DRBG seed = HASH (Hash_construct seed)"
| "construct HMAC_DRBG seed = HMAC (HMAC_construct seed)"

fun generate :: "drbg \<Rightarrow> u64 \<Rightarrow> bytes \<times> drbg" where
  "generate (CTR s) num_bits = (let (out, s') = CTR_generate s num_bits in (out, CTR s'))"
| "generate (HASH s) num_bits = (let (out, s') = Hash_generate s num_bits in (out, HASH s'))"
| "generate (HMAC s) num_bits = (let (out, s') = HMAC_generate s num_bits in (out, HMAC s'))"

fun reseed :: "drbg \<Rightarrow> bytes \<Rightarrow> drbg" where
  "reseed (CTR s) seed = CTR (CTR_reseed s seed)"
| "reseed (HASH s) seed = HASH (Hash_reseed s seed)"
| "reseed (HMAC s) seed = HMAC (HMAC_reseed s seed)"

fun getName :: "drbg \<Rightarrow> string" where
  "getName (CTR s) = ''CTR-DRBG''"
| "getName (HASH s) = ''Hash-DRBG''"
| "getName (HMAC s) = ''HMAC-DRBG''"

fun getStateSize :: "drbg \<Rightarrow> nat" where
  "getStateSize (CTR s) = CTR_getStateSize s"
| "getStateSize (HASH s) = Hash_getStateSize s"
| "getStateSize (HMAC s) = HMAC_getStateSize s"

fun reseed_counter :: "drbg \<Rightarrow> u64" where
  "reseed_counter (CTR s) = ctr_reseed_counter s"
| "reseed_counter (HASH s) = hash_reseed_counter s"
| "reseed_counter (HMAC s) = hmac_reseed_counter s"

text \<open>A caller's sequence of calls on one generator, and the outputs of its generate calls.\<close>

datatype call = Generate u64 | Reseed bytes

fun run :: "drbg \<Rightarrow> call list \<Rightarrow> bytes list \<times> drbg" where
  "run g [] = ([], g)"
| "run g (Generate num_bits # cs) =
     (let (out, g') = generate g num_bits;
          (outs, g'') = run g' cs
      in (out # outs, g''))"
| "run g (Reseed seed # cs) = run (reseed g seed) cs"

section \<open>Several generators in one program\<close>

text \<open>
  A program holds its generators on the heap: an object is made by a constructor and later
  reached through its address, and \<^verbatim>\<open>p->generate(n)\<close> and \<^verbatim>\<open>p->reseed(seed)\<close> read and
  write the members of the object at \<open>p\<close> and nothing else (the source has no mutable static
  or global variable; the tables are \<^verbatim>\<open>constexpr\<close>). An event is one statement of the
  caller; a call through an address that holds no object has no defined behaviour in C++ and
  is \<open>None\<close> here. The outputs are recorded with the address of the generator that
  returned them.
\<close>

type_synonym heap = "drbg list"

datatype event = New variant bytes | Call_generate nat u64 | Call_reseed nat bytes

fun step :: "heap \<Rightarrow> event \<Rightarrow> ((nat \<times> bytes) list \<times> heap) option" where
  "step h (New v seed) = Some ([], h @ [construct v seed])"
| "step h (Call_generate p num_bits) =
     (if p < length h
      then (let (out, g') = generate (h ! p) num_bits in Some ([(p, out)], h[p := g']))
      else None)"
| "step h (Call_reseed p seed) =
     (if p < length h then Some ([], h[p := reseed (h ! p) seed]) else None)"



definition outputs_of :: "nat \<Rightarrow> (nat \<times> bytes) list \<Rightarrow> bytes list" where
  "outputs_of p outs = map snd (filter (\<lambda>(q, out). q = p) outs)"


section \<open>Well-sized states\<close>

text \<open>
  The widths that the \<^verbatim>\<open>std::array\<close> members have by their type, and that the vectors
  \<open>V\<close> and \<open>C\<close> of the Hash-DRBG are meant to keep; and the class of a generator.
\<close>

fun state_ok :: "drbg \<Rightarrow> bool" where
  "state_ok (CTR s) = (length (ctr_key s) = 32 \<and> length (ctr_counter s) = 16)"
| "state_ok (HASH s) = (length (hash_V s) = 55 \<and> length (hash_C s) = 55)"
| "state_ok (HMAC s) = (length (hmac_K s) = 32 \<and> length (hmac_V s) = 32)"

fun variant_of :: "drbg \<Rightarrow> variant" where
  "variant_of (CTR s) = CTR_DRBG"
| "variant_of (HASH s) = Hash_DRBG"
| "variant_of (HMAC s) = HMAC_DRBG"

section \<open>Byte strings as numbers\<close>

text \<open>
  The number that a byte string denotes, most significant byte first, and the \<open>n\<close>-byte
  string of a number: the arbitrary-precision side of the comparison with \<^verbatim>\<open>add_to_V\<close>.
\<close>

fun be_nat :: "bytes \<Rightarrow> nat" where
  "be_nat [] = 0"
| "be_nat (b # bs) = unat b * 256 ^ length bs + be_nat bs"

fun be_bytes :: "nat \<Rightarrow> nat \<Rightarrow> bytes" where
  "be_bytes 0 x = []"
| "be_bytes (Suc n) x = be_bytes n (x div 256) @ [of_nat (x mod 256)]"

section \<open>The block cipher as described\<close>







section \<open>The AES S-box\<close>








section \<open>HMAC and the HMAC-DRBG update as described\<close>

text \<open>
  HMAC over a 64-byte block in the words of the description: the key padded with zero bytes
  to 64 bytes, XORed with \<open>0x36\<close> and with \<open>0x5c\<close>; and the update of \<open>(K, V)\<close>, whose
  second half runs exactly when the provided data is not empty.
\<close>

definition hmac_spec :: "bytes \<Rightarrow> bytes \<Rightarrow> bytes" where
  "hmac_spec key data_in =
     (let padded = key @ replicate (64 - length key) 0x00;
          innerPad = map (\<lambda>b. b XOR 0x36) padded;
          outerPad = map (\<lambda>b. b XOR 0x5c) padded
      in sha256 (outerPad @ sha256 (innerPad @ data_in)))"

fun HMAC_update_spec :: "bytes \<times> bytes \<Rightarrow> bytes \<Rightarrow> bytes \<times> bytes" where
  "HMAC_update_spec (K, V) providedData =
     (let K1 = hmac_spec K (V @ [0x00] @ providedData);
          V1 = hmac_spec K1 V
      in if providedData = [] then (K1, V1)
         else (let K2 = hmac_spec K1 (V1 @ [0x01] @ providedData);
                   V2 = hmac_spec K2 V1
               in (K2, V2)))"

section \<open>Properties\<close>

text \<open>
  C2. \<^verbatim>\<open>sha256\<close> of the empty byte sequence is the 32-byte digest
  e3b0c44298fc1c149afbf4c8996fb92427ae41e4649b934ca495991b7852b855.
\<close>

theorem sha256_empty:
  "sha256 [] =
     [0xE3, 0xB0, 0xC4, 0x42, 0x98, 0xFC, 0x1C, 0x14, 0x9A, 0xFB, 0xF4, 0xC8, 0x99, 0x6F, 0xB9, 0x24,
      0x27, 0xAE, 0x41, 0xE4, 0x64, 0x9B, 0x93, 0x4C, 0xA4, 0x95, 0x99, 0x1B, 0x78, 0x52, 0xB8, 0x55]"
  by code_simp

subsection \<open>Big-endian addition\<close>

lemma be_nat_append: "be_nat (xs @ ys) = be_nat xs * 256 ^ length ys + be_nat ys"
  by (induction xs) (simp_all add: power_add algebra_simps)

lemma be_nat_snoc: "be_nat (xs @ [b]) = be_nat xs * 256 + unat b"
  by (simp add: be_nat_append)

lemma be_nat_bound: "be_nat xs < 256 ^ length xs"
proof (induction xs rule: rev_induct)
  case Nil
  show ?case by simp
next
  case (snoc b xs)
  have "unat b < 256"
    using unsigned_less [of b, where ?'a = nat] by simp
  with snoc show ?case
    by (simp add: be_nat_snoc)
qed

lemma be_bytes_be_nat: "length xs = n \<Longrightarrow> be_bytes n (be_nat xs) = xs"
proof (induction xs arbitrary: n rule: rev_induct)
  case Nil
  then show ?case by simp
next
  case (snoc b xs)
  have b: "unat b < 256"
    using unsigned_less [of b, where ?'a = nat] by simp
  from snoc.prems obtain m where n: "n = Suc m" and m: "length xs = m"
    by (cases n) auto
  show ?case
    using snoc.IH [OF m] b by (simp add: n be_nat_snoc)
qed

lemma length_be_bytes: "length (be_bytes n x) = n"
  by (induction n arbitrary: x) simp_all

lemma be_nat_be_bytes: "be_nat (be_bytes n x) = x mod 256 ^ n"
proof (induction n arbitrary: x)
  case 0
  show ?case by simp
next
  case (Suc n)
  have "unat (of_nat (x mod 256) :: u8) = x mod 256"
    by (simp add: unat_of_nat)
  then show ?case
    using Suc [of "x div 256"]
    by (simp add: be_nat_snoc mod_mult2_eq)
qed

lemma unat_low_byte: "unat (ucast ((s::u16) AND 0xFF) :: u8) = unat s mod 256"
proof -
  have "s AND 0xFF = take_bit 8 s"
    by (simp add: take_bit_eq_mask mask_eq_exp_minus_1)
  then show ?thesis
    by (simp add: unsigned_ucast_eq unsigned_take_bit_eq take_bit_eq_mod unat_mod)
qed

lemma unat_high_byte: "unat (drop_bit 8 (s::u16)) = unat s div 256"
  by (simp add: unat_drop_bit_eq drop_bit_eq_div unat_div)

lemma unat_ucast_u8_u16: "unat (ucast (a::u8) :: u16) = unat a"
proof -
  have "unat a < 2 ^ 16"
    using unsigned_less [of a, where ?'a = nat] by simp
  then show ?thesis
    by (simp add: unsigned_ucast_eq take_bit_nat_eq_self)
qed

lemma unat_byte_less: "unat (a::u8) < 256"
  using unsigned_less [of a, where ?'a = nat] by simp

lemma unat_sum0: "unat c \<le> 1 \<Longrightarrow> unat ((ucast (a::u8) :: u16) + c) = unat a + unat c"
proof -
  assume c: "unat c \<le> 1"
  have "unat (ucast a :: u16) + unat c < 2 ^ LENGTH(16)"
    using c unat_byte_less [of a] by (simp add: unat_ucast_u8_u16)
  then have "unat ((ucast a :: u16) + c) = unat (ucast a :: u16) + unat c"
    by (simp only: unat_add_lem)
  then show ?thesis
    by (simp add: unat_ucast_u8_u16)
qed

lemma unat_sum1:
  "unat c \<le> 1 \<Longrightarrow>
   unat ((ucast (a::u8) :: u16) + c + ucast (b::u8)) = unat a + unat c + unat b"
proof -
  assume c: "unat c \<le> 1"
  have "unat ((ucast a :: u16) + c) + unat (ucast b :: u16) < 2 ^ LENGTH(16)"
    using c unat_byte_less [of a] unat_byte_less [of b]
    by (simp add: unat_ucast_u8_u16 unat_sum0)
  then have "unat ((ucast a :: u16) + c + ucast b)
      = unat ((ucast a :: u16) + c) + unat (ucast b :: u16)"
    by (simp only: unat_add_lem)
  then show ?thesis
    using c by (simp add: unat_ucast_u8_u16 unat_sum0)
qed

lemma mod_step:
  "((A * 256 + a) + (B * 256 + b) + c) mod (256 * 256 ^ k)
     = ((A + B + (a + b + c) div 256) mod 256 ^ k) * 256 + (a + b + c) mod (256::nat)"
proof -
  let ?s = "a + b + c"
  have e: "(A * 256 + a) + (B * 256 + b) + c = (A + B) * 256 + ?s"
    by (simp add: algebra_simps)
  have d: "((A + B) * 256 + ?s) div 256 = A + B + ?s div 256"
    by (rule div_mult_self3) simp
  have m: "((A + B) * 256 + ?s) mod 256 = ?s mod 256"
    by (rule mod_mult_self3)
  have "((A + B) * 256 + ?s) mod (256 * 256 ^ k)
      = 256 * (((A + B) * 256 + ?s) div 256 mod 256 ^ k) + ((A + B) * 256 + ?s) mod 256"
    by (rule mod_mult2_eq)
  then show ?thesis
    by (simp only: e d m mult.commute)
qed

lemma add_to_V_loop_correct:
  "i \<le> length V \<Longrightarrow> unat carry \<le> 1 \<Longrightarrow> min_len = min (length V) (length val) \<Longrightarrow>
   length (add_to_V_loop i min_len val V carry) = length V \<and>
   be_nat (add_to_V_loop i min_len val V carry) =
     ((be_nat (take (length V - i) V) + be_nat (take (length val - i) val) + unat carry)
        mod 256 ^ (length V - i)) * 256 ^ i
     + be_nat (drop (length V - i) V)"
proof (induction i min_len val V carry rule: add_to_V_loop.induct)
  case (1 i min_len val V carry)
  show ?case
  proof (cases "i < length V")
    case False
    with "1.prems" have "i = length V" by simp
    then show ?thesis
      by (subst add_to_V_loop.simps, subst (2) add_to_V_loop.simps) simp
  next
    case True
    define sum where "sum =
      (if i < min_len
       then (ucast (V ! (length V - 1 - i)) :: u16) + carry + ucast (val ! (length val - 1 - i))
       else ucast (V ! (length V - 1 - i)) + carry)"
    define V' where "V' = V[length V - 1 - i := ucast (sum AND 0xFF)]"
    define idx where "idx = length V - 1 - i"
    define b where "b = (if i < min_len then unat (val ! (length val - 1 - i)) else 0)"
    have idx: "idx < length V" "length V - i = Suc idx" "length V - (i + 1) = idx"
      using True by (simp_all add: idx_def)
    have sum: "unat sum = unat (V ! idx) + b + unat carry"
      using "1.prems"(2) by (simp add: sum_def b_def idx_def unat_sum0 unat_sum1)
    have "unat sum < 512"
      using sum "1.prems"(2) unat_byte_less [of "V ! idx"]
        unat_byte_less [of "val ! (length val - 1 - i)"]
      by (simp add: b_def split: if_splits)
    then have carry': "unat (drop_bit 8 sum) \<le> 1"
      by (simp add: unat_high_byte)
    have step: "add_to_V_loop i min_len val V carry
        = add_to_V_loop (i + 1) min_len val V' (drop_bit 8 sum)"
      using True
      by (subst add_to_V_loop.simps) (simp add: Let_def V'_def sum_def)
    have len: "length V' = length V"
      by (simp add: V'_def)
    note IH0 = "1.IH" [OF True refl refl refl refl, folded sum_def, folded V'_def]
    have IH: "length (add_to_V_loop (i + 1) min_len val V' (drop_bit 8 sum)) = length V' \<and>
       be_nat (add_to_V_loop (i + 1) min_len val V' (drop_bit 8 sum)) =
       ((be_nat (take (length V' - (i + 1)) V') + be_nat (take (length val - (i + 1)) val)
           + unat (drop_bit 8 sum)) mod 256 ^ (length V' - (i + 1))) * 256 ^ (i + 1)
        + be_nat (drop (length V' - (i + 1)) V')"
    proof (rule IH0)
      show "i + 1 \<le> length V'" using True by (simp add: len)
      show "unat (drop_bit 8 sum) \<le> 1" by (rule carry')
      show "min_len = min (length V') (length val)"
        using "1.prems"(3) by (simp add: len)
    qed
    define A where "A = be_nat (take idx V)"
    define B where "B = be_nat (take (length val - (i + 1)) val)"
    define D where "D = be_nat (drop (Suc idx) V)"
    have takeV': "take idx V' = take idx V"
      by (simp add: V'_def idx_def)
    have dropV': "drop idx V' = ucast (sum AND 0xFF) # drop (Suc idx) V"
      using idx(1) unfolding V'_def idx_def [symmetric]
      by (simp add: upd_conv_take_nth_drop)
    have ldrop: "length (drop (Suc idx) V) = i"
      using idx by simp
    have dropV'_nat: "be_nat (drop idx V') = (unat sum mod 256) * 256 ^ i + D"
      by (simp only: dropV' be_nat.simps ldrop unat_low_byte D_def)
    have takeV: "be_nat (take (Suc idx) V) = A * 256 + unat (V ! idx)"
      using idx(1) by (simp add: take_Suc_conv_app_nth be_nat_snoc A_def)
    have takeval: "be_nat (take (length val - i) val) = B * 256 + b"
    proof (cases "i < min_len")
      case True
      then have lt: "i < length val" using "1.prems"(3) by simp
      then have "length val - i = Suc (length val - 1 - i)" "length val - 1 - i < length val"
        "length val - (i + 1) = length val - 1 - i"
        by simp_all
      then show ?thesis
        using True by (simp add: take_Suc_conv_app_nth be_nat_snoc b_def B_def)
    next
      case False
      then have "length val \<le> i" using "1.prems"(3) \<open>i < length V\<close> by simp
      then show ?thesis
        using False by (simp add: b_def B_def)
    qed
    have "be_nat (add_to_V_loop i min_len val V carry)
        = ((A + B + unat sum div 256) mod 256 ^ idx) * 256 ^ (i + 1)
          + ((unat sum mod 256) * 256 ^ i + D)"
      using IH by (simp only: step len idx takeV' dropV'_nat unat_high_byte A_def B_def)
    also have "\<dots> = (((A + B + unat sum div 256) mod 256 ^ idx) * 256 + unat sum mod 256) * 256 ^ i + D"
      by (simp add: algebra_simps)
    also have "((A + B + unat sum div 256) mod 256 ^ idx) * 256 + unat sum mod 256
        = ((A * 256 + unat (V ! idx)) + (B * 256 + b) + unat carry) mod (256 * 256 ^ idx)"
      by (simp only: mod_step sum)
    finally have "be_nat (add_to_V_loop i min_len val V carry)
        = ((be_nat (take (Suc idx) V) + be_nat (take (length val - i) val) + unat carry)
             mod 256 ^ Suc idx) * 256 ^ i + D"
      by (simp only: takeV takeval power_Suc)
    moreover have "length (add_to_V_loop i min_len val V carry) = length V"
      using IH by (simp only: step len)
    ultimately show ?thesis
      by (simp only: idx D_def)
  qed
qed

lemma add_to_V_be_nat:
  "length (add_to_V V val) = length V \<and>
   be_nat (add_to_V V val) = (be_nat V + be_nat val) mod 256 ^ length V"
  using add_to_V_loop_correct [of 0 V 0 "min (length V) (length val)" val]
  by (simp add: add_to_V_def)

lemma pow_256_55: "(256::nat) ^ 55 = 2 ^ 440"
proof -
  have "(256::nat) ^ 55 = (2 ^ 8) ^ 55"
    by simp
  also have "\<dots> = 2 ^ 440"
    by (simp only: power_mult [symmetric]) simp
  finally show ?thesis .
qed

text \<open>
  C5. With the 55-byte state \<open>V\<close> and a value of at most 55 bytes, \<^verbatim>\<open>add_to_V\<close> leaves in
  \<open>V\<close> the 55-byte big-endian encoding of \<open>(V + value) mod 2 ^ 440\<close>: the carry out of the
  first byte is dropped, and a shorter value counts as if it had zero bytes on its left.
\<close>

theorem add_to_V_big_endian:
  assumes "length V = 55" and "length val \<le> 55"
  shows "add_to_V V val = be_bytes 55 ((be_nat V + be_nat val) mod 2 ^ 440)
       \<and> add_to_V V (replicate (55 - length val) 0x00 @ val) = add_to_V V val"
proof -
  have enc: "add_to_V V w = be_bytes 55 ((be_nat V + be_nat w) mod 2 ^ 440)" for w
  proof -
    have "length (add_to_V V w) = 55"
      using add_to_V_be_nat [of V w] assms(1) by simp
    then have "add_to_V V w = be_bytes 55 (be_nat (add_to_V V w))"
      by (simp add: be_bytes_be_nat)
    also have "be_nat (add_to_V V w) = (be_nat V + be_nat w) mod 2 ^ 440"
      using add_to_V_be_nat [of V w] assms(1) by (simp only: pow_256_55)
    finally show ?thesis .
  qed
  have "be_nat (replicate k 0x00 @ val) = be_nat val" for k
    by (induction k) simp_all
  then show ?thesis
    by (simp add: enc)
qed

text \<open>The largest state plus one: the carry runs through all 55 bytes and is dropped.\<close>

theorem add_to_V_big_endian_witness:
  "length (replicate 55 (0xFF::u8)) = 55 \<and> length [0x01::u8] \<le> 55 \<and>
   add_to_V (replicate 55 0xFF) [0x01]
     = be_bytes 55 ((be_nat (replicate 55 0xFF) + be_nat [0x01]) mod 2 ^ 440) \<and>
   add_to_V (replicate 55 0xFF) [0x01] = replicate 55 0x00"
proof -
  have enc: "add_to_V (replicate 55 0xFF) [0x01]
      = be_bytes 55 ((be_nat (replicate 55 0xFF) + be_nat [0x01]) mod 2 ^ 440)"
    using add_to_V_big_endian [of "replicate 55 0xFF" "[0x01]"] by simp
  have run: "add_to_V (replicate 55 0xFF) [0x01] = replicate 55 0x00"
    by code_simp
  have len: "length (replicate 55 (0xFF::u8)) = 55 \<and> length [0x01::u8] \<le> 55"
    by simp
  from len enc run show ?thesis
    by blast
qed

subsection \<open>The rounds of the block cipher\<close>

lemma fold_update_pointwise:
  "k \<le> length st \<Longrightarrow>
   fold (\<lambda>i s. s[i := f i (s ! i)]) [0..<k] st = map (\<lambda>i. f i (st ! i)) [0..<k] @ drop k st"
proof (induction k)
  case 0
  show ?case by simp
next
  case (Suc k)
  then have k: "k < length st" by simp
  have "fold (\<lambda>i s. s[i := f i (s ! i)]) [0..<Suc k] st
      = (map (\<lambda>i. f i (st ! i)) [0..<k] @ drop k st)[k := f k ((map (\<lambda>i. f i (st ! i)) [0..<k] @ drop k st) ! k)]"
    using Suc by simp
  also have "(map (\<lambda>i. f i (st ! i)) [0..<k] @ drop k st) ! k = st ! k"
    using k by (simp add: nth_append)
  also have "(map (\<lambda>i. f i (st ! i)) [0..<k] @ drop k st)[k := f k (st ! k)]
      = map (\<lambda>i. f i (st ! i)) [0..<k] @ (drop k st)[0 := f k (st ! k)]"
    by (simp add: list_update_append)
  also have "(drop k st)[0 := f k (st ! k)] = f k (st ! k) # drop (Suc k) st"
    using k by (simp add: Cons_nth_drop_Suc [symmetric])
  finally show ?case by simp
qed




lemma map_nth_fun: "map (\<lambda>i. g (xs ! i)) [0..<length xs] = map g xs"
  by (rule nth_equalityI) simp_all














subsection \<open>The HMAC-DRBG update\<close>

lemma k_pad_copy:
  fixes key :: bytes
  assumes "length key = 32"
  shows "fold (\<lambda>i kp. kp[i := key ! i]) [0..<32] (replicate 64 0x00) = key @ replicate 32 0x00"
proof -
  have "fold (\<lambda>i kp. kp[i := key ! i]) [0..<32] (replicate 64 0x00)
      = map (\<lambda>i. key ! i) [0..<32] @ drop 32 (replicate 64 (0x00::u8))"
    using fold_update_pointwise [of 32 "replicate 64 (0x00::u8)" "\<lambda>i b. key ! i"] by simp
  moreover have "map (\<lambda>i. key ! i) [0..<32] = key"
    using map_nth [of key] assms by simp
  ultimately show ?thesis by simp
qed

lemma hmac_sha256_spec:
  assumes "length key = 32"
  shows "hmac_sha256 key d = hmac_spec key d"
proof -
  have len: "length (key @ replicate 32 (0x00::u8)) = 64"
    using assms by simp
  have pad: "map (\<lambda>i. (key @ replicate 32 0x00) ! i XOR c) [0..<64]
      = map (\<lambda>b. b XOR c) (key @ replicate 32 0x00)" for c :: u8
    using map_nth_fun [of "\<lambda>b. b XOR c" "key @ replicate 32 0x00"] by (simp only: len)
  show ?thesis
    using assms by (simp add: hmac_sha256_def hmac_spec_def k_pad_copy pad Let_def)
qed

lemma HMAC_update_spec_eq:
  assumes "length (hmac_K s) = 32"
  shows "(hmac_K (HMAC_update s pd), hmac_V (HMAC_update s pd))
           = HMAC_update_spec (hmac_K s, hmac_V s) pd
       \<and> hmac_reseed_counter (HMAC_update s pd) = hmac_reseed_counter s"
proof -
  have k: "hmac_sha256 (hmac_spec k' d') d = hmac_spec (hmac_spec k' d') d" for k' d' d
    by (rule hmac_sha256_spec) (simp add: hmac_spec_def Let_def length_sha256)
  have k0: "hmac_sha256 (hmac_K s) d = hmac_spec (hmac_K s) d" for d
    using assms by (rule hmac_sha256_spec)
  show ?thesis
    by (simp add: HMAC_update_def Let_def k k0)
qed

text \<open>
  C6. \<^verbatim>\<open>HMAC_DRBG::update\<close> computes \<open>K = HMAC(K, V || 0x00 || data)\<close>, \<open>V = HMAC(K, V)\<close> and,
  exactly when the data is not empty, \<open>K = HMAC(K, V || 0x01 || data)\<close>, \<open>V = HMAC(K, V)\<close>,
  where HMAC of a 32-byte key is \<open>sha256 (outerPad || sha256 (innerPad || data))\<close>; the reseed
  counter is left alone.
\<close>

theorem HMAC_update_steps:
  assumes "length (hmac_K s) = 32"
  shows "(hmac_K (HMAC_update s provided_data), hmac_V (HMAC_update s provided_data))
           = HMAC_update_spec (hmac_K s, hmac_V s) provided_data
       \<and> hmac_reseed_counter (HMAC_update s provided_data) = hmac_reseed_counter s
       \<and> hmac_sha256 (hmac_K s) d = hmac_spec (hmac_K s) d"
  using assms by (simp only: HMAC_update_spec_eq hmac_sha256_spec)

theorem HMAC_update_steps_witness:
  "length (hmac_K \<lparr>hmac_K = replicate 32 0x00, hmac_V = replicate 32 0x01,
                     hmac_reseed_counter = 1\<rparr>) = 32 \<and>
   (hmac_K (HMAC_construct [0xAA]), hmac_V (HMAC_construct [0xAA]))
     = HMAC_update_spec (replicate 32 0x00, replicate 32 0x01) [0xAA]"
  using HMAC_update_steps [of "\<lparr>hmac_K = replicate 32 0x00, hmac_V = replicate 32 0x01,
      hmac_reseed_counter = 1\<rparr>" "[0xAA]"]
  by (simp add: HMAC_construct_def)

subsection \<open>The CTR-DRBG update\<close>

lemma update_fill_unroll:
  "update_fill key c [] =
     (let c1 = increment_counter c; c2 = increment_counter c1; c3 = increment_counter c2
      in (c3, encrypt_block key c1 @ encrypt_block key c2 @ encrypt_block key c3))"
  by (subst update_fill.simps, subst update_fill.simps, subst update_fill.simps,
      subst update_fill.simps)
    (simp add: Let_def length_encrypt_block KEY_SIZE_def BLOCK_SIZE_def)

lemma length_update_fill: "length (snd (update_fill key c [])) = 48"
  by (simp add: update_fill_unroll Let_def length_encrypt_block)

lemma xor_provided_pointwise:
  "xor_provided temp pd =
     map (\<lambda>i. temp ! i XOR pd ! i) [0..<min (length temp) (length pd)]
       @ drop (min (length temp) (length pd)) temp"
  using fold_update_pointwise [of "min (length temp) (length pd)" temp "\<lambda>i b. b XOR pd ! i"]
  by (simp add: xor_provided_def)

lemma length_xor_provided: "length (xor_provided temp pd) = length temp"
  by (simp add: xor_provided_pointwise)

lemma xor_provided_take:
  assumes "length temp = 48"
  shows "xor_provided temp pd = xor_provided temp (take 48 pd)"
proof -
  have m: "min (length temp) (length (take 48 pd)) = min (length temp) (length pd)"
    using assms by simp
  have "map (\<lambda>i. temp ! i XOR take 48 pd ! i) [0..<min (length temp) (length pd)]
      = map (\<lambda>i. temp ! i XOR pd ! i) [0..<min (length temp) (length pd)]"
    using assms by (intro map_cong) simp_all
  then show ?thesis
    by (simp only: xor_provided_pointwise m)
qed

lemma CTR_update_take: "CTR_update s pd = CTR_update s (take 48 pd)"
proof -
  obtain c temp where f: "update_fill (ctr_key s) (ctr_counter s) [] = (c, temp)"
    by (cases "update_fill (ctr_key s) (ctr_counter s) []")
  then have "length temp = 48"
    using length_update_fill [of "ctr_key s" "ctr_counter s"] by simp
  then have "xor_provided temp pd = xor_provided temp (take 48 pd)"
    by (rule xor_provided_take)
  then show ?thesis
    by (simp add: CTR_update_def f)
qed

lemma CTR_update_lengths:
  "length (ctr_key (CTR_update s pd)) = 32 \<and> length (ctr_counter (CTR_update s pd)) = 16"
proof -
  obtain c temp where f: "update_fill (ctr_key s) (ctr_counter s) [] = (c, temp)"
    by (cases "update_fill (ctr_key s) (ctr_counter s) []")
  then have "length temp = 48"
    using length_update_fill [of "ctr_key s" "ctr_counter s"] by simp
  then show ?thesis
    by (simp add: CTR_update_def f length_xor_provided KEY_SIZE_def BLOCK_SIZE_def Let_def)
qed

lemma CTR_update_rc: "ctr_reseed_counter (CTR_update s pd) = ctr_reseed_counter s"
  by (simp add: CTR_update_def Let_def split: prod.splits)

text \<open>
  C10. Construction and reseeding of the CTR-DRBG read only the first 48 bytes of the seed:
  two seeds that agree there give the same key, counter and reseed counter, hence the same
  outputs on every later sequence of calls.
\<close>

theorem CTR_seed_prefix:
  assumes "take 48 seed1 = take 48 seed2"
  shows "construct CTR_DRBG seed1 = construct CTR_DRBG seed2
       \<and> reseed (CTR s) seed1 = reseed (CTR s) seed2
       \<and> run (construct CTR_DRBG seed1) calls = run (construct CTR_DRBG seed2) calls
       \<and> run (reseed (CTR s) seed1) calls = run (reseed (CTR s) seed2) calls"
proof -
  have u: "CTR_update t seed1 = CTR_update t seed2" for t
    using CTR_update_take [of t seed1] CTR_update_take [of t seed2] assms by simp
  show ?thesis
    by (simp add: CTR_construct_def CTR_reseed_def u)
qed

theorem CTR_seed_prefix_witness:
  "take 48 (replicate 48 (0xAB::u8)) = take 48 (replicate 48 0xAB @ [0x01, 0x02, 0x03]) \<and>
   construct CTR_DRBG (replicate 48 0xAB) = construct CTR_DRBG (replicate 48 0xAB @ [0x01, 0x02, 0x03]) \<and>
   run (construct CTR_DRBG (replicate 48 0xAB)) [Generate 128, Reseed [], Generate 7]
     = run (construct CTR_DRBG (replicate 48 0xAB @ [0x01, 0x02, 0x03]))
         [Generate 128, Reseed [], Generate 7]"
proof -
  have h: "take 48 (replicate 48 (0xAB::u8)) = take 48 (replicate 48 0xAB @ [0x01, 0x02, 0x03])"
    by simp
  show ?thesis
    using h CTR_seed_prefix [OF h, of "CTR_construct []" "[Generate 128, Reseed [], Generate 7]"]
    by blast
qed

subsection \<open>The length of the output\<close>

lemma length_resize: "length (resize n v) = n"
  by (simp add: resize_def)

lemma length_generate: "length (fst (generate g num_bits)) = unat ((num_bits + 7) div 8)"
proof (cases g)
  case (CTR s)
  then show ?thesis
    by (simp add: CTR_generate_def Let_def length_resize split: prod.splits)
next
  case (HASH s)
  then show ?thesis
    by (simp add: Hash_generate_def hashgen_def Let_def length_resize split: prod.splits)
next
  case (HMAC s)
  then show ?thesis
    by (simp add: HMAC_generate_def Let_def length_resize split: prod.splits)
qed

lemma unat_ceil8:
  fixes num_bits :: u64
  assumes "unat num_bits \<le> 2 ^ 64 - 8"
  shows "unat ((num_bits + 7) div 8) = (unat num_bits + 7) div 8"
proof -
  have "unat num_bits + unat (7::u64) < 2 ^ LENGTH(64)"
    using assms by simp
  then have "unat (num_bits + 7) = unat num_bits + unat (7::u64)"
    by (simp only: unat_add_lem)
  then show ?thesis
    by (simp add: unat_div)
qed

text \<open>
  In a model where no allocation fails, the length is the ceiling of \<open>num_bits / 8\<close> as
  long as \<open>num_bits + 7\<close> does not wrap.
\<close>

lemma length_generate_ceil:
  "unat num_bits \<le> 2 ^ 64 - 8 \<Longrightarrow>
   length (fst (generate g num_bits)) = (unat num_bits + 7) div 8"
  by (simp add: length_generate unat_ceil8)

lemma generate_no_bytes:
  "unat ((num_bits + 7) div 8) = 0 \<Longrightarrow> fst (generate g num_bits) = []"
  using length_generate [of g num_bits] by simp

text \<open>
  C3. The code takes the ceiling by \<^verbatim>\<open>(num_bits + 7) / 8\<close> in \<^verbatim>\<open>size_t\<close>. For the largest
  bit count, \<open>2 ^ 64 - 1\<close>, the sum wraps to 6: every variant returns no byte at all, where
  \<open>ceil (num_bits / 8)\<close> is \<open>2 ^ 61\<close>.
\<close>

theorem generate_overflow:
  "fst (generate (construct CTR_DRBG []) 0xFFFFFFFFFFFFFFFF) = []
   \<and> fst (generate (construct Hash_DRBG []) 0xFFFFFFFFFFFFFFFF) = []
   \<and> fst (generate (construct HMAC_DRBG []) 0xFFFFFFFFFFFFFFFF) = []
   \<and> (unat (0xFFFFFFFFFFFFFFFF::u64) + 7) div 8 = 2 ^ 61"
proof -
  have wrap: "unat ((0xFFFFFFFFFFFFFFFF + 7) div 8 :: u64) = 0"
    by simp
  have none: "fst (generate g 0xFFFFFFFFFFFFFFFF) = []" for g
    using wrap by (rule generate_no_bytes)
  have "(unat (0xFFFFFFFFFFFFFFFF::u64) + 7) div 8 = 2 ^ 61"
    by simp
  then show ?thesis
    by (simp only: none simp_thms)
qed

subsection \<open>The reseed counter\<close>

lemma reseed_counter_construct: "reseed_counter (construct v seed) = 1"
  by (cases v)
    (simp_all add: CTR_construct_def CTR_update_rc Hash_construct_def HMAC_construct_def
      HMAC_update_def Let_def)

lemma reseed_counter_reseed: "reseed_counter (reseed g seed) = 1"
  by (cases g) (simp_all add: CTR_reseed_def Hash_reseed_def HMAC_reseed_def Let_def)

lemma reseed_counter_generate:
  "reseed_counter (snd (generate g num_bits)) = reseed_counter g + 1"
proof (cases g)
  case (CTR s)
  then show ?thesis
    by (simp add: CTR_generate_def CTR_update_rc Let_def split: prod.splits)
next
  case (HASH s)
  then show ?thesis
    by (simp add: Hash_generate_def Let_def split: prod.splits)
next
  case (HMAC s)
  then show ?thesis
    by (simp add: HMAC_generate_def HMAC_update_def Let_def split: prod.splits)
qed

lemma snd_run_Generate:
  "snd (run g (Generate num_bits # cs)) = snd (run (snd (generate g num_bits)) cs)"
  by (simp add: case_prod_unfold Let_def)

lemma fst_run_Generate:
  "fst (run g (Generate num_bits # cs))
     = fst (generate g num_bits) # fst (run (snd (generate g num_bits)) cs)"
  by (simp add: case_prod_unfold Let_def)

lemma reseed_counter_generates:
  "reseed_counter (snd (run g (map Generate ns))) = reseed_counter g + of_nat (length ns)"
proof (induction ns arbitrary: g)
  case Nil
  show ?case by simp
next
  case (Cons n ns)
  have "reseed_counter (snd (run g (map Generate (n # ns))))
      = reseed_counter (snd (generate g n)) + of_nat (length ns)"
    by (simp only: list.map snd_run_Generate Cons.IH)
  then show ?case
    by (simp add: reseed_counter_generate)
qed

lemma unat_k1:
  assumes "k + 1 < 2 ^ 64"
  shows "unat (1 + of_nat k :: u64) = k + 1"
proof -
  have "(1 + of_nat k :: u64) = of_nat (k + 1)"
    by simp
  then show ?thesis
    using assms by (simp only: unat_of_nat) simp
qed

text \<open>
  C7. The reseed counter, a \<^verbatim>\<open>uint64_t\<close>, is 1 after construction and after every reseed,
  and every generate call adds 1 to it; after \<open>k\<close> generate calls since then it is \<open>k + 1\<close>
  (as a 64-bit value, and as a number whenever \<open>k + 1\<close> is below \<open>2 ^ 64\<close>).
\<close>

theorem reseed_counter_counts:
  "reseed_counter (construct v seed) = 1
   \<and> reseed_counter (reseed g seed) = 1
   \<and> reseed_counter (snd (generate g num_bits)) = reseed_counter g + 1
   \<and> reseed_counter (snd (run (construct v seed) (map Generate ns))) = of_nat (length ns + 1)
   \<and> reseed_counter (snd (run (reseed g seed) (map Generate ns))) = of_nat (length ns + 1)
   \<and> (length ns + 1 < 2 ^ 64 \<longrightarrow>
        unat (reseed_counter (snd (run (construct v seed) (map Generate ns)))) = length ns + 1
        \<and> unat (reseed_counter (snd (run (reseed g seed) (map Generate ns)))) = length ns + 1)"
proof -
  have "length ns + 1 < 2 ^ 64 \<Longrightarrow> unat (1 + of_nat (length ns) :: u64) = length ns + 1"
    by (rule unat_k1)
  then show ?thesis
    by (simp add: reseed_counter_construct reseed_counter_reseed reseed_counter_generate
        reseed_counter_generates)
qed

theorem reseed_counter_counts_witness:
  "length [8, 16, 0 :: u64] + 1 < 2 ^ 64 \<and>
   unat (reseed_counter (snd (run (construct HMAC_DRBG [0x01])
      [Generate 8, Generate 16, Generate 0]))) = 4 \<and>
   unat (reseed_counter (snd (run (reseed (construct CTR_DRBG []) [0x01])
      [Generate 8, Generate 16, Generate 0]))) = 4"
  using reseed_counter_counts [where v = HMAC_DRBG and seed = "[0x01]"
      and g = "construct CTR_DRBG []" and ns = "[8, 16, 0]"]
  by simp

subsection \<open>The size of the state\<close>

lemma length_hash_df_seedlen: "length (hash_df input (of_nat SEED_LENGTH * 8)) = 55"
  by (simp add: hash_df_def Let_def length_resize SEED_LENGTH_def)

lemma HMAC_update_lengths:
  "length (hmac_K (HMAC_update s pd)) = 32 \<and> length (hmac_V (HMAC_update s pd)) = 32"
  by (simp add: HMAC_update_def Let_def length_hmac_sha256)

lemma state_ok_construct: "state_ok (construct v seed) \<and> variant_of (construct v seed) = v"
  by (cases v)
    (simp_all add: CTR_construct_def CTR_update_lengths Hash_construct_def Let_def
      length_hash_df_seedlen HMAC_construct_def HMAC_update_lengths)

lemma state_ok_reseed: "state_ok (reseed g seed) \<and> variant_of (reseed g seed) = variant_of g"
  by (cases g)
    (simp_all add: CTR_reseed_def CTR_update_lengths Hash_reseed_def Let_def
      length_hash_df_seedlen HMAC_reseed_def HMAC_update_lengths)

lemma state_ok_generate:
  assumes "state_ok g"
  shows "state_ok (snd (generate g num_bits))
       \<and> variant_of (snd (generate g num_bits)) = variant_of g"
proof (cases g)
  case (CTR s)
  then show ?thesis
    by (simp add: CTR_generate_def CTR_update_lengths Let_def split: prod.splits)
next
  case (HASH s)
  then show ?thesis
    using assms by (simp add: Hash_generate_def add_to_V_be_nat Let_def)
next
  case (HMAC s)
  then show ?thesis
    by (simp add: HMAC_generate_def HMAC_update_lengths Let_def split: prod.splits)
qed

lemma state_ok_run:
  "state_ok g \<Longrightarrow> state_ok (snd (run g calls)) \<and> variant_of (snd (run g calls)) = variant_of g"
proof (induction calls arbitrary: g)
  case Nil
  then show ?case by simp
next
  case (Cons c calls)
  show ?case
  proof (cases c)
    case (Generate n)
    have "state_ok (snd (generate g n))" "variant_of (snd (generate g n)) = variant_of g"
      using state_ok_generate [OF Cons.prems, of n] by simp_all
    then show ?thesis
      using Cons.IH [of "snd (generate g n)"] by (simp only: Generate snd_run_Generate)
  next
    case (Reseed seed)
    have "state_ok (reseed g seed)" "variant_of (reseed g seed) = variant_of g"
      using state_ok_reseed [of g seed] by simp_all
    then show ?thesis
      using Cons.IH [of "reseed g seed"] by (simp add: Reseed)
  qed
qed

lemma getStateSize_ok:
  "state_ok g \<Longrightarrow>
   getStateSize g = (case variant_of g of CTR_DRBG \<Rightarrow> 56 | Hash_DRBG \<Rightarrow> 118 | HMAC_DRBG \<Rightarrow> 72)"
  by (cases g)
    (simp_all add: CTR_getStateSize_def Hash_getStateSize_def HMAC_getStateSize_def
      KEY_SIZE_def BLOCK_SIZE_def)

text \<open>
  C8. After construction from any seed and any sequence of generate and reseed calls,
  \<^verbatim>\<open>getStateSize\<close> is 56 for the CTR-DRBG, 118 for the Hash-DRBG and 72 for the HMAC-DRBG;
  the members keep their widths, and \<open>V\<close> and \<open>C\<close> of the Hash-DRBG have 55 bytes each.
\<close>

theorem state_size_invariant:
  "getStateSize (snd (run (construct v seed) calls))
     = (case v of CTR_DRBG \<Rightarrow> 56 | Hash_DRBG \<Rightarrow> 118 | HMAC_DRBG \<Rightarrow> 72)
   \<and> state_ok (snd (run (construct v seed) calls))
   \<and> variant_of (snd (run (construct v seed) calls)) = v
   \<and> (case snd (run (construct Hash_DRBG seed) calls) of
         HASH s \<Rightarrow> length (hash_V s) = 55 \<and> length (hash_C s) = 55
       | _ \<Rightarrow> False)"
proof -
  have ok: "state_ok (snd (run (construct w seed) calls))
      \<and> variant_of (snd (run (construct w seed) calls)) = w" for w
    using state_ok_run [of "construct w seed" calls] state_ok_construct [of w seed] by simp
  have size: "getStateSize (snd (run (construct v seed) calls))
      = (case v of CTR_DRBG \<Rightarrow> 56 | Hash_DRBG \<Rightarrow> 118 | HMAC_DRBG \<Rightarrow> 72)"
    using getStateSize_ok [of "snd (run (construct v seed) calls)"] ok [of v] by simp
  have "case snd (run (construct Hash_DRBG seed) calls) of
         HASH s \<Rightarrow> length (hash_V s) = 55 \<and> length (hash_C s) = 55
       | _ \<Rightarrow> False"
    using ok [of Hash_DRBG] by (cases "snd (run (construct Hash_DRBG seed) calls)") simp_all
  then show ?thesis
    using ok [of v] size by simp
qed

subsection \<open>A request for zero bits\<close>

lemma unat_low_byte64: "unat (ucast ((y::u64) AND 0xFF) :: u8) = unat y mod 256"
proof -
  have "y AND 0xFF = take_bit 8 y"
    by (simp add: take_bit_eq_mask mask_eq_exp_minus_1)
  then show ?thesis
    by (simp add: unsigned_ucast_eq unsigned_take_bit_eq take_bit_eq_mod unat_mod)
qed

lemma unat_byte_of:
  "unat (ucast (drop_bit k (x::u64) AND 0xFF) :: u8) = (unat x div 2 ^ k) mod 256"
proof -
  have a: "unat (drop_bit k x) = drop_bit k (unat x)"
    by (rule unat_drop_bit_eq)
  have b: "drop_bit k (unat x) = unat x div 2 ^ k"
    by (rule drop_bit_eq_div)
  show ?thesis
    by (simp only: unat_low_byte64 a b)
qed

lemma be_nat_digits:
  assumes "\<And>i. i < k \<Longrightarrow> unat (f i) = (n div 256 ^ i) mod 256"
  shows "be_nat (map f (rev [0..<k])) = n mod 256 ^ k"
  using assms
proof (induction k)
  case 0
  show ?case by simp
next
  case (Suc k)
  have split: "n mod (256 ^ k * 256) = 256 ^ k * (n div 256 ^ k mod 256) + n mod 256 ^ k"
    by (rule mod_mult2_eq)
  have "be_nat (map f (rev [0..<Suc k])) = unat (f k) * 256 ^ k + be_nat (map f (rev [0..<k]))"
    by simp
  also have "\<dots> = 256 ^ k * (n div 256 ^ k mod 256) + n mod 256 ^ k"
    using Suc by (simp add: mult.commute)
  also have "\<dots> = n mod (256 ^ k * 256)"
    by (simp only: split)
  finally show ?case
    by (simp add: mult.commute)
qed

lemma be_nat_be64: "be_nat (be64 x) = unat x"
proof -
  have "be_nat (be64 x) = unat x mod 256 ^ 8"
    unfolding be64_def
  proof (rule be_nat_digits)
    fix i :: nat
    have "(2::nat) ^ (i * 8) = (2 ^ 8) ^ i"
      by (simp only: mult.commute [of i 8] power_mult)
    then have "(2::nat) ^ (i * 8) = 256 ^ i"
      by simp
    then show "unat (ucast (drop_bit (i * 8) x AND 0xFF) :: u8) = unat x div 256 ^ i mod 256"
      by (simp only: unat_byte_of)
  qed
  moreover have "unat x < 256 ^ 8"
    using unsigned_less [of x, where ?'a = nat] by simp
  ultimately show ?thesis
    by simp
qed

lemma Hash_generate_state:
  assumes "length (hash_V s) = 55"
  shows "snd (Hash_generate s num_bits) =
     s\<lparr>hash_V := be_bytes 55
          ((be_nat (hash_V s) + be_nat (sha256 (0x03 # hash_V s)) + be_nat (hash_C s)
             + unat (hash_reseed_counter s)) mod 2 ^ 440),
       hash_reseed_counter := hash_reseed_counter s + 1\<rparr>"
proof -
  let ?V = "hash_V s"
  let ?H = "sha256 (0x03 # hash_V s)"
  let ?V3 = "add_to_V (add_to_V (add_to_V ?V ?H) (hash_C s)) (be64 (hash_reseed_counter s))"
  have len: "length ?V3 = 55"
    using assms by (simp add: add_to_V_be_nat)
  have "be_nat ?V3
      = (((be_nat ?V + be_nat ?H) mod 256 ^ 55 + be_nat (hash_C s)) mod 256 ^ 55
           + unat (hash_reseed_counter s)) mod 256 ^ 55"
    using assms by (simp add: add_to_V_be_nat be_nat_be64)
  also have "\<dots> = (be_nat ?V + be_nat ?H + be_nat (hash_C s)
      + unat (hash_reseed_counter s)) mod 256 ^ 55"
    by (simp only: mod_add_left_eq)
  finally have "be_nat ?V3 = (be_nat ?V + be_nat ?H + be_nat (hash_C s)
      + unat (hash_reseed_counter s)) mod 2 ^ 440"
    by (simp only: pow_256_55)
  moreover have "?V3 = be_bytes 55 (be_nat ?V3)"
    using len by (simp only: be_bytes_be_nat)
  ultimately have "?V3 = be_bytes 55 ((be_nat ?V + be_nat ?H + be_nat (hash_C s)
      + unat (hash_reseed_counter s)) mod 2 ^ 440)"
    by simp
  then show ?thesis
    by (simp add: Hash_generate_def Let_def)
qed

lemma hashgen_0: "hashgen V 0 = []"
  by (simp add: hashgen_def HASH_OUTPUT_def resize_def)

lemma CTR_generate_0:
  "CTR_generate s 0 = ([], (CTR_update s [])\<lparr>ctr_reseed_counter := ctr_reseed_counter s + 1\<rparr>)"
  by (simp add: CTR_generate_def generate_fill.simps [of _ _ 0] resize_def CTR_update_rc)

lemma HMAC_generate_0:
  "HMAC_generate s 0 = ([], (HMAC_update s [])\<lparr>hmac_reseed_counter := hmac_reseed_counter s + 1\<rparr>)"
  by (simp add: HMAC_generate_def hmac_fill.simps [of _ _ 0] resize_def HMAC_update_def Let_def)

lemma CTR_generate_state:
  "snd (CTR_generate s num_bits) =
     (CTR_update (s\<lparr>ctr_counter :=
         fst (generate_fill (ctr_key s) (ctr_counter s) (unat ((num_bits + 7) div 8)) [])\<rparr>) [])
       \<lparr>ctr_reseed_counter := ctr_reseed_counter s + 1\<rparr>"
  by (simp add: CTR_generate_def Let_def CTR_update_rc split: prod.splits)

lemma HMAC_generate_state:
  "snd (HMAC_generate s num_bits) =
     (HMAC_update (s\<lparr>hmac_V :=
         fst (hmac_fill (hmac_K s) (hmac_V s) (unat ((num_bits + 7) div 8)) [])\<rparr>) [])
       \<lparr>hmac_reseed_counter := hmac_reseed_counter s + 1\<rparr>"
  by (simp add: HMAC_generate_def Let_def HMAC_update_def split: prod.splits)

text \<open>
  C9. \<^verbatim>\<open>generate(0)\<close> returns no byte and still makes the state transition that ends every
  generate call: the CTR-DRBG runs \<^verbatim>\<open>update\<close> on no data, the Hash-DRBG (with its 55-byte
  \<open>V\<close>) sets \<open>V = (V + sha256 (0x03 || V) + C + reseed_counter) mod 2 ^ 440\<close>, the HMAC-DRBG runs
  \<^verbatim>\<open>update\<close> on no data, and the reseed counter goes up by 1. A request for any number of
  bits ends with the same transition, from the state that producing the output has left.
\<close>

theorem generate_zero:
  "generate (CTR c) 0
     = ([], CTR ((CTR_update c [])\<lparr>ctr_reseed_counter := ctr_reseed_counter c + 1\<rparr>))
   \<and> generate (HMAC m) 0
     = ([], HMAC ((HMAC_update m [])\<lparr>hmac_reseed_counter := hmac_reseed_counter m + 1\<rparr>))
   \<and> (length (hash_V h) = 55 \<longrightarrow>
        generate (HASH h) 0
          = ([], HASH (h\<lparr>hash_V := be_bytes 55
                 ((be_nat (hash_V h) + be_nat (sha256 (0x03 # hash_V h)) + be_nat (hash_C h)
                    + unat (hash_reseed_counter h)) mod 2 ^ 440),
               hash_reseed_counter := hash_reseed_counter h + 1\<rparr>)))
   \<and> snd (generate (CTR c) num_bits)
     = CTR ((CTR_update (c\<lparr>ctr_counter :=
            fst (generate_fill (ctr_key c) (ctr_counter c) (unat ((num_bits + 7) div 8)) [])\<rparr>) [])
          \<lparr>ctr_reseed_counter := ctr_reseed_counter c + 1\<rparr>)
   \<and> snd (generate (HMAC m) num_bits)
     = HMAC ((HMAC_update (m\<lparr>hmac_V :=
            fst (hmac_fill (hmac_K m) (hmac_V m) (unat ((num_bits + 7) div 8)) [])\<rparr>) [])
          \<lparr>hmac_reseed_counter := hmac_reseed_counter m + 1\<rparr>)
   \<and> snd (generate (HASH h) num_bits) = snd (generate (HASH h) 0)"
proof -
  have hash0: "length (hash_V h) = 55 \<Longrightarrow>
      Hash_generate h 0
        = ([], h\<lparr>hash_V := be_bytes 55
               ((be_nat (hash_V h) + be_nat (sha256 (0x03 # hash_V h)) + be_nat (hash_C h)
                  + unat (hash_reseed_counter h)) mod 2 ^ 440),
             hash_reseed_counter := hash_reseed_counter h + 1\<rparr>)"
    using Hash_generate_state [of h 0] hashgen_0 [of "hash_V h"]
    by (simp add: Hash_generate_def Let_def)
  have hashn: "snd (Hash_generate h num_bits) = snd (Hash_generate h 0)"
    by (simp add: Hash_generate_def Let_def)
  show ?thesis
    using hash0 hashn CTR_generate_state [of c num_bits] HMAC_generate_state [of m num_bits]
    by (simp add: CTR_generate_0 HMAC_generate_0 case_prod_unfold Let_def)
qed

theorem generate_zero_witness:
  "length (hash_V (Hash_construct [])) = 55 \<and>
   fst (generate (HASH (Hash_construct [])) 0) = [] \<and>
   reseed_counter (snd (generate (HASH (Hash_construct [])) 0)) = 2"
proof -
  have h: "length (hash_V (Hash_construct [])) = 55"
    by (simp add: Hash_construct_def Let_def length_hash_df_seedlen)
  have rc: "hash_reseed_counter (Hash_construct []) = 1"
    by (simp add: Hash_construct_def Let_def)
  show ?thesis
    using h rc generate_zero [where h = "Hash_construct []"] by simp
qed

subsection \<open>Determinism\<close>

text \<open>
  What one object returns in a run of the program depends on the object as it was at the
  start and on the calls made on it, in their order: not on the other objects, nor on how
  the calls on them are interleaved with its own.
\<close>

lemma outputs_of_append: "outputs_of p (xs @ ys) = outputs_of p xs @ outputs_of p ys"
  by (simp add: outputs_of_def)

lemma fst_run_Reseed: "fst (run g (Reseed seed # cs)) = fst (run (reseed g seed) cs)"
  by simp

lemma snd_run_Reseed: "snd (run g (Reseed seed # cs)) = snd (run (reseed g seed) cs)"
  by simp




end
